theory Spec2Isabelle
  imports Complex_Main
begin

section \<open>HAL Contract v2: the Python reference implementation (backend.py)\<close>

text \<open>
  The development follows \<^verbatim>\<open>src/python/hal_contract/backend.py\<close>. Python's unbounded
  integers are \<^typ>\<open>int\<close>, strings are \<^typ>\<open>string\<close>, lists are lists, and a
  \<^verbatim>\<open>dict\<close> is an association list in insertion order with distinct keys (the order
  matters for \<^verbatim>\<open>max\<close>). True division \<^verbatim>\<open>/\<close> of two integers either raises
  (\<^verbatim>\<open>ZeroDivisionError\<close>, \<^verbatim>\<open>OverflowError\<close>) or gives a double, which stands here as the
  exact quotient in \<^typ>\<open>rat\<close>: the rounding of a quotient inside the double range is not
  part of the model.
\<close>

subsection \<open>JobStatus\<close>

datatype JobStatus = QUEUED | RUNNING | COMPLETED | FAILED | CANCELLED

definition is_terminal :: "JobStatus \<Rightarrow> bool" where
  "is_terminal s = (s \<in> set [COMPLETED, FAILED, CANCELLED])"

definition is_pending :: "JobStatus \<Rightarrow> bool" where
  "is_pending s = (s \<in> set [QUEUED, RUNNING])"

definition is_success :: "JobStatus \<Rightarrow> bool" where
  "is_success s = (s = COMPLETED)"

subsection \<open>GateSet\<close>

record GateSet =
  single_qubit :: "string list"
  two_qubit :: "string list"
  three_qubit :: "string list"
  native :: "string list"

definition contains :: "GateSet \<Rightarrow> string \<Rightarrow> bool" where
  "contains g gate =
     (gate \<in> set (single_qubit g) \<or> gate \<in> set (two_qubit g) \<or> gate \<in> set (three_qubit g))"

text \<open>\<^verbatim>\<open>not self.native\<close> is true exactly for the empty list.\<close>

definition is_native :: "GateSet \<Rightarrow> string \<Rightarrow> bool" where
  "is_native g gate = (if native g = [] then contains g gate else gate \<in> set (native g))"

definition iqm :: GateSet where
  "iqm = \<lparr>single_qubit = [''prx''], two_qubit = [''cz''], three_qubit = [],
           native = [''prx'', ''cz'']\<rparr>"

definition universal :: GateSet where
  "universal =
     \<lparr>single_qubit =
        [''id'', ''x'', ''y'', ''z'', ''h'', ''s'', ''sdg'', ''t'', ''tdg'',
         ''sx'', ''sxdg'', ''rx'', ''ry'', ''rz'', ''p'', ''u'', ''prx''],
      two_qubit =
        [''cx'', ''cy'', ''cz'', ''ch'', ''swap'', ''iswap'',
         ''crx'', ''cry'', ''crz'', ''cp'', ''rxx'', ''ryy'', ''rzz''],
      three_qubit = [''ccx'', ''cswap''],
      native = []\<rparr>"

subsection \<open>Topology\<close>

datatype TopologyKind =
  FULLY_CONNECTED | LINEAR | STAR | GRID | HEAVY_HEX | CUSTOM | NEUTRAL_ATOM

record Topology =
  kind :: TopologyKind
  edges :: "(int \<times> int) list"

text \<open>\<^verbatim>\<open>any(... for a, b in self.edges)\<close> is \<^const>\<open>list_ex\<close> over the edge list.\<close>

definition is_connected :: "Topology \<Rightarrow> int \<Rightarrow> int \<Rightarrow> bool" where
  "is_connected t q1 q2 =
     list_ex (\<lambda>(a, b). (a = q1 \<and> b = q2) \<or> (a = q2 \<and> b = q1)) (edges t)"

text \<open>\<^verbatim>\<open>range(n)\<close> is \<open>0, 1, ..., n - 1\<close>, and empty when \<open>n \<le> 0\<close>.\<close>

definition py_range :: "int \<Rightarrow> int list" where
  "py_range n = [0..n - 1]"

text \<open>
  The body of the inner loop of \<^verbatim>\<open>Topology.grid\<close>, as a function from the edge list
  before the iteration to the edge list after it.
\<close>

definition grid_cell :: "int \<Rightarrow> int \<Rightarrow> int \<Rightarrow> int \<Rightarrow> (int \<times> int) list \<Rightarrow> (int \<times> int) list" where
  "grid_cell rows cols r c es =
     (let idx = r * cols + c;
          es1 = (if c + 1 < cols then es @ [(idx, idx + 1)] else es);
          es2 = (if r + 1 < rows then es1 @ [(idx, idx + cols)] else es1)
      in es2)"

definition grid :: "int \<Rightarrow> int \<Rightarrow> Topology" where
  "grid rows cols =
     \<lparr>kind = GRID,
      edges = fold (\<lambda>r es. fold (\<lambda>c es'. grid_cell rows cols r c es') (py_range cols) es)
                (py_range rows) []\<rparr>"

text \<open>What one iteration of the inner loop appends (used in the proofs only).\<close>

definition cell_edges :: "int \<Rightarrow> int \<Rightarrow> int \<Rightarrow> int \<Rightarrow> (int \<times> int) list" where
  "cell_edges rows cols r c =
     (if c + 1 < cols then [(r * cols + c, r * cols + c + 1)] else []) @
     (if r + 1 < rows then [(r * cols + c, r * cols + c + cols)] else [])"

subsection \<open>ValidationResult\<close>

record ValidationResult =
  is_valid :: bool
  reasons :: "string list"
  requires_transpilation :: bool
  transpilation_details :: "string option"

text \<open>The dataclass defaults fill the fields the constructor call leaves out.\<close>

definition needs_transpilation :: "string \<Rightarrow> ValidationResult" where
  "needs_transpilation details =
     \<lparr>is_valid = False, reasons = [], requires_transpilation = True,
      transpilation_details = Some details\<rparr>"

subsection \<open>Counts\<close>

datatype py_error = ZeroDivisionError | OverflowError

text \<open>
  True division of two integers, \<^verbatim>\<open>a / b\<close>. A zero divisor raises
  \<^verbatim>\<open>ZeroDivisionError\<close>. Otherwise the quotient is rounded to the nearest double, ties to
  even, and \<^verbatim>\<open>OverflowError\<close> is raised when the rounded value is outside the double range
  (\<open>2 ^ 1024\<close> or more in absolute value). The largest double is \<open>2 ^ 1024 - 2 ^ 971\<close>, so
  this happens exactly when the absolute value of the quotient is at least
  \<open>2 ^ 1024 - 2 ^ 970\<close>.
\<close>

definition float_overflow_bound :: int where
  "float_overflow_bound = 2 ^ 1024 - 2 ^ 970"

definition truediv :: "int \<Rightarrow> int \<Rightarrow> py_error + rat" where
  "truediv a b =
     (if b = 0 then Inl ZeroDivisionError
      else if float_overflow_bound * \<bar>b\<bar> \<le> \<bar>a\<bar> then Inl OverflowError
      else Inr (of_int a / of_int b))"

text \<open>
  A \<^verbatim>\<open>dict\<close> keeps its keys in insertion order: \<^verbatim>\<open>d[k] = v\<close> overwrites the value
  of a key already present, in place, and appends a new key at the end.
\<close>

definition dict_get :: "('k \<times> 'v) list \<Rightarrow> 'k \<Rightarrow> 'v \<Rightarrow> 'v" where
  "dict_get d k dflt = (case map_of d k of None \<Rightarrow> dflt | Some v \<Rightarrow> v)"

fun dict_set :: "('k \<times> 'v) list \<Rightarrow> 'k \<Rightarrow> 'v \<Rightarrow> ('k \<times> 'v) list" where
  "dict_set [] k v = [(k, v)]"
| "dict_set ((k', v') # d) k v = (if k' = k then (k, v) # d else (k', v') # dict_set d k v)"

definition dict_keys :: "('k \<times> 'v) list \<Rightarrow> 'k list" where
  "dict_keys d = map fst d"

definition dict_values :: "('k \<times> 'v) list \<Rightarrow> 'v list" where
  "dict_values d = map snd d"

text \<open>The keys of a dict are pairwise different.\<close>

definition is_dict :: "('k \<times> 'v) list \<Rightarrow> bool" where
  "is_dict d = distinct (dict_keys d)"

text \<open>The field \<^verbatim>\<open>_counts\<close> of the dataclass is \<open>counts_dict\<close> here.\<close>

record Counts =
  counts_dict :: "(string \<times> int) list"

definition Counts_empty :: Counts where
  "Counts_empty = \<lparr>counts_dict = []\<rparr>"

definition Counts_insert :: "Counts \<Rightarrow> string \<Rightarrow> int \<Rightarrow> Counts" where
  "Counts_insert c bitstring count =
     c\<lparr>counts_dict :=
         dict_set (counts_dict c) bitstring (dict_get (counts_dict c) bitstring 0 + count)\<rparr>"

definition Counts_get :: "Counts \<Rightarrow> string \<Rightarrow> int" where
  "Counts_get c bitstring = dict_get (counts_dict c) bitstring 0"

definition Counts_total_shots :: "Counts \<Rightarrow> int" where
  "Counts_total_shots c = sum_list (dict_values (counts_dict c))"

text \<open>
  \<^verbatim>\<open>max(items, key=...)\<close> starts from the first item and replaces the current maximum
  only by an item whose key is strictly greater, so the first maximal item wins.
\<close>

fun py_max :: "('a \<Rightarrow> int) \<Rightarrow> 'a \<Rightarrow> 'a list \<Rightarrow> 'a" where
  "py_max key best [] = best"
| "py_max key best (x # xs) = py_max key (if key x > key best then x else best) xs"

definition Counts_most_frequent :: "Counts \<Rightarrow> (string \<times> int) option" where
  "Counts_most_frequent c =
     (case counts_dict c of
        [] \<Rightarrow> None
      | x # xs \<Rightarrow> Some (py_max snd x xs))"

text \<open>
  The comprehension \<^verbatim>\<open>{k: v / total for k, v in items}\<close>: one division per item, in
  order (\<open>tot\<close> is the source's \<^verbatim>\<open>total\<close>); the first division that raises ends it. The keys come from a dict, so every
  item adds a new key at the end.
\<close>

fun divide_items :: "(string \<times> int) list \<Rightarrow> int \<Rightarrow> py_error + (string \<times> rat) list" where
  "divide_items [] tot = Inr []"
| "divide_items ((k, v) # items) tot =
     (case truediv v tot of
        Inl e \<Rightarrow> Inl e
      | Inr p \<Rightarrow>
          (case divide_items items tot of
             Inl e \<Rightarrow> Inl e
           | Inr rest \<Rightarrow> Inr ((k, p) # rest)))"

definition Counts_probabilities :: "Counts \<Rightarrow> py_error + (string \<times> rat) list" where
  "Counts_probabilities c =
     (let tot = Counts_total_shots c
      in if tot = 0 then Inr [] else divide_items (counts_dict c) tot)"

subsection \<open>ExecutionResult\<close>

record 'm ExecutionResult =
  counts :: Counts
  shots :: int
  execution_time_ms :: "int option"
  metadata :: "'m option"

definition ExecutionResult_most_frequent ::
  "'m ExecutionResult \<Rightarrow> py_error + (string \<times> rat) option" where
  "ExecutionResult_most_frequent r =
     (let tot = Counts_total_shots (counts r)
      in if tot = 0 then Inr None
         else (case Counts_most_frequent (counts r) of
                 None \<Rightarrow> Inr None
               | Some (bitstring, count) \<Rightarrow>
                   (case truediv count tot of
                      Inl e \<Rightarrow> Inl e
                    | Inr p \<Rightarrow> Inr (Some (bitstring, p)))))"

subsection \<open>Error types\<close>

text \<open>The exception classes of the module; each carries its message.\<close>

datatype HalError =
    HalError string
  | BackendUnavailableError string
  | TimeoutError string
  | InvalidCircuitError string
  | CircuitTooLargeError string
  | InvalidShotsError string
  | UnsupportedError string
  | SubmissionFailedError string
  | JobFailedError string
  | JobCancelledError string
  | JobNotFoundError string
  | AuthenticationFailedError string
  | ConfigurationError string
  | BackendError string

subsection \<open>Backend and the default wait\<close>

type_synonym JobId = string

text \<open>
  \<^verbatim>\<open>status\<close> and \<^verbatim>\<open>result\<close> are abstract coroutines. Here they are the fields of a
  record: functions of the job id and of the state \<open>'w\<close> of everything outside the caller
  (the remote service, the clock), which give the state afterwards and either the value
  returned (\<open>Inr\<close>) or the exception raised (\<open>Inl\<close>, of a type \<open>'e\<close> that the backend
  chooses). The other abstract methods are not called by \<^verbatim>\<open>wait\<close> and are left out.
\<close>

record ('w, 'e, 'r) Backend =
  status :: "JobId \<Rightarrow> 'w \<Rightarrow> ('e + JobStatus) \<times> 'w"
  result :: "JobId \<Rightarrow> 'w \<Rightarrow> ('e + 'r) \<times> 'w"

text \<open>
  How a call of \<^verbatim>\<open>wait\<close> ends: it returns a value, it executes one of its own
  \<^verbatim>\<open>raise\<close> statements, or an exception raised inside \<^verbatim>\<open>status\<close> or \<^verbatim>\<open>result\<close>
  passes through it (\<^verbatim>\<open>wait\<close> has no handler).
\<close>

datatype ('e, 'r) outcome = Returned 'r | Raised HalError | Propagated 'e

text \<open>
  The loop \<^verbatim>\<open>for _ in range(600)\<close> with the number of iterations still to run as the
  first argument; the equation for \<open>0\<close> is the statement after the loop.
  \<^verbatim>\<open>asyncio.sleep\<close> is a parameter that takes the delay in seconds and advances the
  outside state; \<^verbatim>\<open>asyncio.sleep(0.5)\<close> itself does not raise. The cancellation of the
  task from outside, which would surface at an \<^verbatim>\<open>await\<close>, is concurrency and is not
  modelled.
\<close>

fun wait_loop ::
  "nat \<Rightarrow> (rat \<Rightarrow> 'w \<Rightarrow> 'w) \<Rightarrow> ('w, 'e, 'r) Backend \<Rightarrow> JobId \<Rightarrow> 'w \<Rightarrow> ('e, 'r) outcome \<times> 'w" where
  "wait_loop 0 sleep b job_id w =
     (Raised (TimeoutError (''Timeout waiting for job '' @ job_id)), w)"
| "wait_loop (Suc n) sleep b job_id w =
     (case status b job_id w of
        (Inl e, w1) \<Rightarrow> (Propagated e, w1)
      | (Inr s, w1) \<Rightarrow>
          if s = COMPLETED then
            (case result b job_id w1 of
               (Inl e, w2) \<Rightarrow> (Propagated e, w2)
             | (Inr r, w2) \<Rightarrow> (Returned r, w2))
          else if s = FAILED then
            (Raised (JobFailedError (''Job '' @ job_id @ '' failed'')), w1)
          else if s = CANCELLED then
            (Raised (JobCancelledError (''Job '' @ job_id @ '' cancelled'')), w1)
          else wait_loop n sleep b job_id (sleep (1 / 2) w1))"

definition wait ::
  "(rat \<Rightarrow> 'w \<Rightarrow> 'w) \<Rightarrow> ('w, 'e, 'r) Backend \<Rightarrow> JobId \<Rightarrow> 'w \<Rightarrow> ('e, 'r) outcome \<times> 'w" where
  "wait = wait_loop 600"

subsection \<open>Recording the calls of a run\<close>

text \<open>
  To speak about the polls a run of \<^verbatim>\<open>wait\<close> makes, the backend and the sleep function
  are wrapped so that every call appends itself, with what it gave back, to a log that is
  carried next to the outside state. The wrapped operations behave as the original ones.
\<close>

datatype ('e, 'r) call =
  Status_call "'e + JobStatus" | Result_call "'e + 'r" | Sleep_call rat

definition recording :: "('w, 'e, 'r) Backend \<Rightarrow> ('w \<times> ('e, 'r) call list, 'e, 'r) Backend" where
  "recording b =
     \<lparr>status = (\<lambda>job_id (w, cs).
         case status b job_id w of (x, w') \<Rightarrow> (x, (w', cs @ [Status_call x]))),
      result = (\<lambda>job_id (w, cs).
         case result b job_id w of (x, w') \<Rightarrow> (x, (w', cs @ [Result_call x])))\<rparr>"

definition recording_sleep ::
  "(rat \<Rightarrow> 'w \<Rightarrow> 'w) \<Rightarrow> rat \<Rightarrow> 'w \<times> ('e, 'r) call list \<Rightarrow> 'w \<times> ('e, 'r) call list" where
  "recording_sleep sleep t = (\<lambda>(w, cs). (sleep t w, cs @ [Sleep_call t]))"

text \<open>The results of the polls of \<^verbatim>\<open>status\<close> in a log, in the order they were made.\<close>

fun polls :: "('e, 'r) call list \<Rightarrow> ('e + JobStatus) list" where
  "polls [] = []"
| "polls (Status_call x # cs) = x # polls cs"
| "polls (_ # cs) = polls cs"

text \<open>The way \<^verbatim>\<open>wait\<close> ends when its last call was \<^verbatim>\<open>result\<close> and gave \<open>x\<close>.\<close>

fun outcome_of_result :: "'e + 'r \<Rightarrow> ('e, 'r) outcome" where
  "outcome_of_result (Inl e) = Propagated e"
| "outcome_of_result (Inr r) = Returned r"


text \<open>
  The exception that the caller of \<^verbatim>\<open>wait\<close> catches, whether \<^verbatim>\<open>wait\<close> raised it or
  let it pass, for a backend that raises the exceptions of this module.
\<close>

fun exception_raised :: "(HalError, 'r) outcome \<Rightarrow> HalError option" where
  "exception_raised (Returned r) = None"
| "exception_raised (Raised e) = Some e"
| "exception_raised (Propagated e) = Some e"

text \<open>
  The shape of the log of a run of the loop with \<open>n\<close> iterations to go, and how the run ends
  (used in the proofs: the lemma \<open>wait_loop_recording\<close> shows that every run of
  \<open>wait_loop\<close> has this shape).
\<close>

inductive wait_run :: "nat \<Rightarrow> JobId \<Rightarrow> ('e, 'r) call list \<Rightarrow> ('e, 'r) outcome \<Rightarrow> bool" where
  timeout: "wait_run 0 job_id [] (Raised (TimeoutError (''Timeout waiting for job '' @ job_id)))"
| status_raised: "wait_run (Suc n) job_id [Status_call (Inl e)] (Propagated e)"
| completed:
    "wait_run (Suc n) job_id [Status_call (Inr COMPLETED), Result_call x] (outcome_of_result x)"
| failed:
    "wait_run (Suc n) job_id [Status_call (Inr FAILED)]
       (Raised (JobFailedError (''Job '' @ job_id @ '' failed'')))"
| cancelled:
    "wait_run (Suc n) job_id [Status_call (Inr CANCELLED)]
       (Raised (JobCancelledError (''Job '' @ job_id @ '' cancelled'')))"
| pending:
    "s = QUEUED \<or> s = RUNNING \<Longrightarrow> wait_run n job_id cs out \<Longrightarrow>
     wait_run (Suc n) job_id (Status_call (Inr s) # Sleep_call (1 / 2) # cs) out"





section \<open>Properties\<close>

subsection \<open>JobStatus predicates\<close>

text \<open>
  C2. For every JobStatus value \<open>s\<close>: \<open>is_terminal\<close> holds exactly for COMPLETED, FAILED and
  CANCELLED; \<open>is_pending\<close> holds exactly for QUEUED and RUNNING; \<open>is_success\<close> holds exactly
  for COMPLETED.
\<close>

theorem JobStatus_predicates:
  "(is_terminal s \<longleftrightarrow> s = COMPLETED \<or> s = FAILED \<or> s = CANCELLED) \<and>
   (is_pending s \<longleftrightarrow> s = QUEUED \<or> s = RUNNING) \<and>
   (is_success s \<longleftrightarrow> s = COMPLETED)"
  by (cases s) (simp_all add: is_terminal_def is_pending_def is_success_def)

subsection \<open>GateSet membership\<close>

text \<open>
  C5. \<open>contains\<close> is membership in one of the three arity buckets; \<open>is_native\<close> is membership
  in \<open>native\<close> when that list is non-empty and \<open>contains\<close> when it is empty. On the IQM preset
  \<open>cz\<close> is native; on the universal preset, whose \<open>native\<close> is empty, \<open>is_native cz\<close> equals
  \<open>contains cz\<close>, which is true.
\<close>

theorem GateSet_contains_is_native:
  "(contains g s \<longleftrightarrow>
      s \<in> set (single_qubit g) \<or> s \<in> set (two_qubit g) \<or> s \<in> set (three_qubit g)) \<and>
   (native g \<noteq> [] \<longrightarrow> is_native g s = (s \<in> set (native g))) \<and>
   (native g = [] \<longrightarrow> is_native g s = contains g s) \<and>
   is_native iqm ''cz'' \<and>
   is_native universal ''cz'' = contains universal ''cz'' \<and>
   contains universal ''cz''"
  by (simp add: contains_def is_native_def iqm_def universal_def)

theorem GateSet_contains_is_native_witness:
  "native iqm \<noteq> [] \<and> native universal = [] \<and>
   is_native iqm ''prx'' = (''prx'' \<in> set (native iqm)) \<and>
   is_native universal ''ccx'' = contains universal ''ccx'' \<and>
   is_native iqm ''prx'' \<and> \<not> is_native iqm ''ccx'' \<and> contains universal ''ccx''"
  using GateSet_contains_is_native [of iqm "''prx''"]
    GateSet_contains_is_native [of universal "''ccx''"]
    GateSet_contains_is_native [of iqm "''ccx''"]
  by (simp add: iqm_def universal_def)

subsection \<open>Topology connectivity\<close>

text \<open>
  C7. Connectivity is symmetric: for every topology \<open>t\<close> and qubit indices \<open>a\<close> and \<open>b\<close>,
  \<open>is_connected t a b\<close> equals \<open>is_connected t b a\<close>, since both orientations of every edge
  are checked.
\<close>

theorem is_connected_symmetric: "is_connected t a b = is_connected t b a"
  unfolding is_connected_def list_ex_iff by auto

subsection \<open>Counts: insertion and total\<close>

lemma dict_get_set: "dict_get (dict_set d k v) k' dflt = (if k' = k then v else dict_get d k' dflt)"
  by (induction d) (auto simp: dict_get_def)

lemma dict_keys_set: "set (dict_keys (dict_set d k v)) = Set.insert k (set (dict_keys d))"
  by (induction d) (force simp: dict_keys_def)+

lemma is_dict_set: "is_dict d \<Longrightarrow> is_dict (dict_set d k v)"
proof (induction d)
  case Nil
  then show ?case by (simp add: is_dict_def dict_keys_def)
next
  case (Cons p d)
  obtain k' v' where p: "p = (k', v')" by (cases p)
  from Cons.prems have d: "is_dict d" and k': "k' \<notin> set (dict_keys d)"
    by (simp_all add: is_dict_def dict_keys_def p)
  show ?case
  proof (cases "k' = k")
    case True
    with Cons.prems show ?thesis by (simp add: p is_dict_def dict_keys_def)
  next
    case False
    from d have "is_dict (dict_set d k v)" by (rule Cons.IH)
    moreover from k' False have "k' \<notin> set (dict_keys (dict_set d k v))"
      by (simp add: dict_keys_set)
    ultimately show ?thesis using False by (simp add: p is_dict_def dict_keys_def)
  qed
qed

lemma sum_values_set:
  "sum_list (dict_values (dict_set d k v)) = sum_list (dict_values d) - dict_get d k 0 + (v::int)"
  by (induction d) (auto simp: dict_values_def dict_get_def)

lemma sum_values_keys:
  "is_dict d \<Longrightarrow> sum_list (dict_values d) = (\<Sum>k\<in>set (dict_keys d). dict_get d k (0::int))"
proof (induction d)
  case Nil
  then show ?case by (simp add: dict_values_def dict_keys_def)
next
  case (Cons p d)
  obtain k v where p: "p = (k, v)" by (cases p)
  from Cons.prems have d: "is_dict d" and k: "k \<notin> set (dict_keys d)"
    by (simp_all add: is_dict_def dict_keys_def p)
  have same: "(\<Sum>x\<in>set (dict_keys d). dict_get (p # d) x 0) = (\<Sum>x\<in>set (dict_keys d). dict_get d x 0)"
    using k by (intro sum.cong) (auto simp: dict_get_def p)
  have "sum_list (dict_values (p # d)) = v + sum_list (dict_values d)"
    by (simp add: dict_values_def p)
  also have "\<dots> = v + (\<Sum>x\<in>set (dict_keys d). dict_get d x 0)"
    using Cons.IH [OF d] by simp
  also have "\<dots> = (\<Sum>x\<in>set (dict_keys (p # d)). dict_get (p # d) x 0)"
    using k same by (simp add: dict_keys_def p dict_get_def)
  finally show ?case .
qed


lemma py_max_mem: "py_max key best xs \<in> set (best # xs)"
  by (induction xs arbitrary: best) auto

lemma py_max_ge_best: "key best \<le> key (py_max key best xs)"
proof (induction xs arbitrary: best)
  case Nil
  show ?case by simp
next
  case (Cons x xs)
  show ?case
  proof (cases "key x > key best")
    case True
    have "key x \<le> key (py_max key x xs)" by (rule Cons.IH)
    with True show ?thesis by simp
  next
    case False
    then show ?thesis by (simp add: Cons.IH)
  qed
qed

lemma py_max_ge: "x \<in> set (best # xs) \<Longrightarrow> key x \<le> key (py_max key best xs)"
proof (induction xs arbitrary: best)
  case Nil
  then show ?case by simp
next
  case (Cons y ys)
  let ?b = "if key y > key best then y else best"
  have b: "key best \<le> key ?b" and y: "key y \<le> key ?b" by auto
  have ge: "key ?b \<le> key (py_max key ?b ys)" by (rule py_max_ge_best)
  from Cons.prems consider "x = best" | "x = y" | "x \<in> set ys" by auto
  then show ?case
  proof cases
    case 1
    with b ge show ?thesis by simp
  next
    case 2
    with y ge show ?thesis by simp
  next
    case 3
    then have "x \<in> set (?b # ys)" by simp
    then have "key x \<le> key (py_max key ?b ys)" by (rule Cons.IH)
    then show ?thesis by simp
  qed
qed


text \<open>
  C3. \<open>insert\<close> is additive: after \<open>insert(s, m)\<close> and \<open>insert(s, n)\<close> the count of \<open>s\<close> is
  its previous value plus \<open>m\<close> plus \<open>n\<close> (and each insertion raises the total by the inserted
  count); for a dict (distinct keys, which insertion keeps) \<open>total_shots\<close> is the sum of the
  stored counts over all stored bitstrings. On an empty Counts, \<open>insert("101", 3)\<close> then
  \<open>insert("101", 2)\<close> give \<open>get("101") = 5\<close> and \<open>total_shots() = 5\<close>.
\<close>

theorem Counts_insert_additive:
  "Counts_get (Counts_insert (Counts_insert c s m) s n) s = Counts_get c s + m + n \<and>
   Counts_total_shots (Counts_insert c s m) = Counts_total_shots c + m \<and>
   (is_dict (counts_dict c) \<longrightarrow>
      is_dict (counts_dict (Counts_insert c s m)) \<and>
      Counts_total_shots c = (\<Sum>k\<in>set (dict_keys (counts_dict c)). Counts_get c k)) \<and>
   Counts_get (Counts_insert (Counts_insert Counts_empty ''101'' 3) ''101'' 2) ''101'' = 5 \<and>
   Counts_total_shots (Counts_insert (Counts_insert Counts_empty ''101'' 3) ''101'' 2) = 5"
proof (intro conjI impI)
  show "Counts_get (Counts_insert (Counts_insert c s m) s n) s = Counts_get c s + m + n"
    by (simp add: Counts_get_def Counts_insert_def dict_get_set)
  show "Counts_total_shots (Counts_insert c s m) = Counts_total_shots c + m"
    by (simp add: Counts_total_shots_def Counts_insert_def sum_values_set)
  show "is_dict (counts_dict (Counts_insert c s m))" if "is_dict (counts_dict c)"
    using that by (simp add: Counts_insert_def is_dict_set)
  show "Counts_total_shots c = (\<Sum>k\<in>set (dict_keys (counts_dict c)). Counts_get c k)"
    if "is_dict (counts_dict c)"
    using that by (simp add: Counts_total_shots_def Counts_get_def sum_values_keys)
  show "Counts_get (Counts_insert (Counts_insert Counts_empty ''101'' 3) ''101'' 2) ''101'' = 5"
    by (simp add: Counts_get_def Counts_insert_def Counts_empty_def dict_get_def)
  show "Counts_total_shots (Counts_insert (Counts_insert Counts_empty ''101'' 3) ''101'' 2) = 5"
    by (simp add: Counts_total_shots_def Counts_insert_def Counts_empty_def dict_get_def
        dict_values_def)
qed

theorem Counts_insert_additive_witness:
  "is_dict (counts_dict \<lparr>counts_dict = [(''00'', 4), (''11'', 6)]\<rparr>) \<and>
   is_dict (counts_dict (Counts_insert \<lparr>counts_dict = [(''00'', 4), (''11'', 6)]\<rparr> ''11'' 2)) \<and>
   Counts_total_shots \<lparr>counts_dict = [(''00'', 4), (''11'', 6)]\<rparr> = 10 \<and>
   Counts_total_shots (Counts_insert \<lparr>counts_dict = [(''00'', 4), (''11'', 6)]\<rparr> ''11'' 2) = 12 \<and>
   Counts_get (Counts_insert (Counts_insert \<lparr>counts_dict = [(''00'', 4), (''11'', 6)]\<rparr> ''11'' 2)
     ''11'' 1) ''11'' = 9"
  using Counts_insert_additive [of "\<lparr>counts_dict = [(''00'', 4), (''11'', 6)]\<rparr>" "''11''" 2 1]
  by (simp add: is_dict_def dict_keys_def Counts_get_def dict_get_def)


subsection \<open>Counts: probabilities\<close>

lemma float_overflow_bound_gt_1: "1 < float_overflow_bound"
  by (simp add: float_overflow_bound_def)

lemma truediv_in_unit:
  assumes "0 \<le> a" "a \<le> b" "b \<noteq> 0"
  shows "truediv a b = Inr (of_int a / of_int b)"
proof -
  from assms have b: "0 < b" by simp
  have "\<bar>a\<bar> < float_overflow_bound * \<bar>b\<bar>"
  proof -
    have "\<bar>a\<bar> \<le> 1 * b" using assms by simp
    also have "\<dots> < float_overflow_bound * b"
      using float_overflow_bound_gt_1 b by (intro mult_strict_right_mono) simp_all
    finally show ?thesis using b by simp
  qed
  with assms(3) show ?thesis by (simp add: truediv_def)
qed

lemma nonneg_le_sum_list:
  fixes xs :: "int list"
  assumes "\<forall>x\<in>set xs. 0 \<le> x" "x \<in> set xs"
  shows "x \<le> sum_list xs"
  using assms
proof (induction xs)
  case Nil
  then show ?case by simp
next
  case (Cons y ys)
  have nn: "0 \<le> sum_list ys" using Cons.prems(1) by (intro sum_list_nonneg) simp
  show ?case
  proof (cases "x = y")
    case True
    with nn show ?thesis by simp
  next
    case False
    with Cons.prems have "x \<in> set ys" "\<forall>x\<in>set ys. 0 \<le> x" by simp_all
    with Cons.IH have "x \<le> sum_list ys" by blast
    moreover have "0 \<le> y" using Cons.prems(1) by simp
    ultimately show ?thesis by simp
  qed
qed

lemma divide_items_in_unit:
  assumes "\<forall>(k, v)\<in>set items. 0 \<le> v \<and> v \<le> tot" "tot \<noteq> 0"
  shows "divide_items items tot = Inr (map (\<lambda>(k, v). (k, of_int v / of_int tot)) items)"
  using assms(1)
proof (induction items)
  case Nil
  show ?case by simp
next
  case (Cons p items)
  obtain k v where p: "p = (k, v)" by (cases p)
  from Cons.prems have v: "0 \<le> v" "v \<le> tot" by (simp_all add: p)
  from Cons.prems have "\<forall>(k, v)\<in>set items. 0 \<le> v \<and> v \<le> tot" by simp
  then have "divide_items items tot = Inr (map (\<lambda>(k, v). (k, of_int v / of_int tot)) items)"
    by (rule Cons.IH)
  then show ?case
    by (simp add: p truediv_in_unit [OF v assms(2)])
qed

lemma divide_items_no_zero_division:
  "tot \<noteq> 0 \<Longrightarrow> divide_items items tot \<noteq> Inl ZeroDivisionError"
  by (induction items) (auto simp: truediv_def split: sum.splits if_splits)

lemma counts_bounded_by_total:
  assumes "\<forall>(k, v)\<in>set d. (0::int) \<le> v"
  shows "\<forall>(k, v)\<in>set d. 0 \<le> v \<and> v \<le> sum_list (dict_values d)"
proof (clarify)
  fix k v
  assume kv: "(k, v) \<in> set d"
  with assms have "0 \<le> v" by auto
  moreover have "v \<le> sum_list (dict_values d)"
    unfolding dict_values_def
    using assms kv by (intro nonneg_le_sum_list) force+
  ultimately show "0 \<le> v \<and> v \<le> sum_list (dict_values d)" by simp
qed


text \<open>
  C4, as stated, fails: \<open>probabilities\<close> can raise. With the counts \<open>a: 10 ^ 400\<close> and
  \<open>b: 1 - 10 ^ 400\<close> the total is 1, the guard \<open>total == 0\<close> is passed, and the first division
  \<open>10 ^ 400 / 1\<close> raises \<open>OverflowError\<close>.
\<close>

theorem Counts_probabilities_overflow:
  "Counts_total_shots \<lparr>counts_dict = [(''a'', 10 ^ 400), (''b'', 1 - 10 ^ 400)]\<rparr> = 1 \<and>
   Counts_probabilities \<lparr>counts_dict = [(''a'', 10 ^ 400), (''b'', 1 - 10 ^ 400)]\<rparr> =
     Inl OverflowError"
  by (simp add: Counts_probabilities_def Counts_total_shots_def dict_values_def truediv_def
      float_overflow_bound_def)


text \<open>
  C4, amended. For every Counts value, \<open>probabilities\<close> never divides by zero, and when
  \<open>total_shots\<close> is 0 it returns the empty mapping. When no stored count is negative and
  \<open>total_shots\<close> is not 0, it does not raise and maps each stored bitstring to its count
  divided by \<open>total_shots\<close>.
\<close>

theorem Counts_probabilities_nonneg:
  "Counts_probabilities c \<noteq> Inl ZeroDivisionError \<and>
   (Counts_total_shots c = 0 \<longrightarrow> Counts_probabilities c = Inr []) \<and>
   ((\<forall>(k, v)\<in>set (counts_dict c). 0 \<le> v) \<and> Counts_total_shots c \<noteq> 0 \<longrightarrow>
      Counts_probabilities c =
        Inr (map (\<lambda>(k, v). (k, of_int v / of_int (Counts_total_shots c))) (counts_dict c)))"
proof (intro conjI impI)
  show "Counts_probabilities c \<noteq> Inl ZeroDivisionError"
    by (simp add: Counts_probabilities_def Let_def divide_items_no_zero_division)
  show "Counts_probabilities c = Inr []" if "Counts_total_shots c = 0"
    using that by (simp add: Counts_probabilities_def)
  show "Counts_probabilities c =
      Inr (map (\<lambda>(k, v). (k, of_int v / of_int (Counts_total_shots c))) (counts_dict c))"
    if h: "(\<forall>(k, v)\<in>set (counts_dict c). 0 \<le> v) \<and> Counts_total_shots c \<noteq> 0"
  proof -
    from h have "\<forall>(k, v)\<in>set (counts_dict c). 0 \<le> v \<and> v \<le> Counts_total_shots c"
      unfolding Counts_total_shots_def by (intro counts_bounded_by_total) simp
    with h show ?thesis
      by (simp add: Counts_probabilities_def divide_items_in_unit)
  qed
qed

theorem Counts_probabilities_nonneg_witness:
  "Counts_total_shots Counts_empty = 0 \<and> Counts_probabilities Counts_empty = Inr [] \<and>
   (0::int) \<le> 1 \<and> (0::int) \<le> 3 \<and>
   Counts_total_shots \<lparr>counts_dict = [(''0'', 1), (''1'', 3)]\<rparr> \<noteq> 0 \<and>
   Counts_probabilities \<lparr>counts_dict = [(''0'', 1), (''1'', 3)]\<rparr> =
     Inr [(''0'', 1 / 4), (''1'', 3 / 4)]"
  using Counts_probabilities_nonneg [of Counts_empty]
    Counts_probabilities_nonneg [of "\<lparr>counts_dict = [(''0'', 1), (''1'', 3)]\<rparr>"]
  by (simp add: Counts_total_shots_def Counts_empty_def dict_values_def)

subsection \<open>ExecutionResult: the most frequent outcome\<close>

text \<open>
  C8, as stated, fails: with the counts \<open>a: 10 ^ 400\<close> and \<open>b: 1 - 10 ^ 400\<close> the total is 1,
  not 0, and \<open>most_frequent\<close> returns no pair: the division \<open>count / total\<close> of the maximal
  entry raises \<open>OverflowError\<close>.
\<close>

theorem ExecutionResult_most_frequent_overflow:
  "Counts_total_shots
     (counts \<lparr>counts = \<lparr>counts_dict = [(''a'', 10 ^ 400), (''b'', 1 - 10 ^ 400)]\<rparr>, shots = 1,
        execution_time_ms = None, metadata = None :: unit option\<rparr>) = 1 \<and>
   ExecutionResult_most_frequent
     \<lparr>counts = \<lparr>counts_dict = [(''a'', 10 ^ 400), (''b'', 1 - 10 ^ 400)]\<rparr>, shots = 1,
      execution_time_ms = None, metadata = None :: unit option\<rparr> = Inl OverflowError"
  by (simp add: ExecutionResult_most_frequent_def Counts_most_frequent_def
      Counts_total_shots_def dict_values_def truediv_def float_overflow_bound_def)

text \<open>
  C8, amended. \<open>most_frequent\<close> of an ExecutionResult returns None when \<open>total_shots\<close> is 0,
  and also when the counts are empty. When no stored count is negative and \<open>total_shots\<close> is
  not 0, it returns a stored bitstring whose count is at least every stored count, paired
  with that count divided by \<open>total_shots\<close> (which of several maximal entries is not
  promised).
\<close>

theorem ExecutionResult_most_frequent_nonneg:
  "(Counts_total_shots (counts r) = 0 \<or> counts_dict (counts r) = [] \<longrightarrow>
      ExecutionResult_most_frequent r = Inr None) \<and>
   ((\<forall>(k, v)\<in>set (counts_dict (counts r)). 0 \<le> v) \<and> Counts_total_shots (counts r) \<noteq> 0 \<longrightarrow>
      (\<exists>b n. (b, n) \<in> set (counts_dict (counts r)) \<and>
         (\<forall>(b', n') \<in> set (counts_dict (counts r)). n' \<le> n) \<and>
         ExecutionResult_most_frequent r =
           Inr (Some (b, of_int n / of_int (Counts_total_shots (counts r))))))"
proof (intro conjI impI)
  assume "Counts_total_shots (counts r) = 0 \<or> counts_dict (counts r) = []"
  then show "ExecutionResult_most_frequent r = Inr None"
    by (auto simp: ExecutionResult_most_frequent_def Counts_most_frequent_def
        Counts_total_shots_def dict_values_def)
next
  let ?d = "counts_dict (counts r)" and ?tot = "Counts_total_shots (counts r)"
  assume h: "(\<forall>(k, v)\<in>set ?d. 0 \<le> v) \<and> ?tot \<noteq> 0"
  then have tot: "?tot \<noteq> 0" by simp
  then obtain x xs where d: "?d = x # xs"
    by (cases ?d) (auto simp: Counts_total_shots_def dict_values_def)
  obtain b n where best: "py_max snd x xs = (b, n)" by (cases "py_max snd x xs")
  have mem: "(b, n) \<in> set ?d"
    using py_max_mem [of snd x xs] by (simp add: d best)
  from h have "\<forall>(k, v)\<in>set ?d. 0 \<le> v \<and> v \<le> ?tot"
    unfolding Counts_total_shots_def by (intro counts_bounded_by_total) simp
  with mem have n: "0 \<le> n" "n \<le> ?tot" by auto
  have "\<forall>(b', n') \<in> set ?d. n' \<le> n"
  proof (clarify)
    fix b' n'
    assume "(b', n') \<in> set ?d"
    then have "(b', n') \<in> set (x # xs)" by (simp add: d)
    then have "snd (b', n') \<le> snd (py_max snd x xs)" by (rule py_max_ge)
    then show "n' \<le> n" by (simp add: best)
  qed
  moreover have "ExecutionResult_most_frequent r = Inr (Some (b, of_int n / of_int ?tot))"
    using tot by (simp add: ExecutionResult_most_frequent_def Counts_most_frequent_def d best
        truediv_in_unit [OF n tot])
  ultimately show "\<exists>b n. (b, n) \<in> set ?d \<and> (\<forall>(b', n') \<in> set ?d. n' \<le> n) \<and>
      ExecutionResult_most_frequent r = Inr (Some (b, of_int n / of_int ?tot))"
    using mem by blast
qed

theorem ExecutionResult_most_frequent_nonneg_witness:
  "(0::int) \<le> 1 \<and> (0::int) \<le> 3 \<and>
   Counts_total_shots
     (counts \<lparr>counts = \<lparr>counts_dict = [(''01'', 1), (''00'', 3), (''11'', 3)]\<rparr>, shots = 7,
        execution_time_ms = None, metadata = None :: unit option\<rparr>) \<noteq> 0 \<and>
   ExecutionResult_most_frequent
     \<lparr>counts = \<lparr>counts_dict = [(''01'', 1), (''00'', 3), (''11'', 3)]\<rparr>, shots = 7,
      execution_time_ms = None, metadata = None :: unit option\<rparr> =
     Inr (Some (''00'', 3 / 7)) \<and>
   counts_dict
     (counts \<lparr>counts = Counts_empty, shots = 0, execution_time_ms = None,
        metadata = None :: unit option\<rparr>) = [] \<and>
   ExecutionResult_most_frequent
     \<lparr>counts = Counts_empty, shots = 0, execution_time_ms = None,
      metadata = None :: unit option\<rparr> = Inr None"
  using ExecutionResult_most_frequent_nonneg
      [of "\<lparr>counts = \<lparr>counts_dict = [(''01'', 1), (''00'', 3), (''11'', 3)]\<rparr>, shots = 7,
            execution_time_ms = None, metadata = None :: unit option\<rparr>"]
    ExecutionResult_most_frequent_nonneg
      [of "\<lparr>counts = Counts_empty, shots = 0, execution_time_ms = None,
            metadata = None :: unit option\<rparr>"]
  by (simp add: Counts_total_shots_def dict_values_def Counts_empty_def
      ExecutionResult_most_frequent_def Counts_most_frequent_def truediv_def
      float_overflow_bound_def)


subsection \<open>Topology: the grid\<close>

lemma set_py_range: "set (py_range n) = {i. 0 \<le> i \<and> i < n}"
  by (auto simp: py_range_def)

lemma grid_cell_append: "grid_cell rows cols r c es = es @ cell_edges rows cols r c"
  by (simp add: grid_cell_def cell_edges_def Let_def)

lemma fold_append_concat: "fold (\<lambda>x acc. acc @ f x) xs acc = acc @ concat (map f xs)"
  by (induction xs arbitrary: acc) simp_all

lemma edges_grid_concat:
  "edges (grid rows cols) =
     concat (map (\<lambda>r. concat (map (cell_edges rows cols r) (py_range cols))) (py_range rows))"
  by (simp add: grid_def grid_cell_append fold_append_concat)

lemma edges_grid_iff:
  "(a, b) \<in> set (edges (grid rows cols)) \<longleftrightarrow>
     (\<exists>r c. 0 \<le> r \<and> r < rows \<and> 0 \<le> c \<and> c < cols \<and> a = r * cols + c \<and>
        ((c + 1 < cols \<and> b = a + 1) \<or> (r + 1 < rows \<and> b = a + cols)))"
  unfolding edges_grid_concat by (auto simp: set_py_range cell_edges_def)

lemma index_mod:
  fixes r c n :: int
  assumes "0 \<le> c" "c < n"
  shows "(r * n + c) mod n = c" and "(r * n + c) div n = r"
proof -
  have "(r * n + c) mod n = c mod n" by simp
  also have "\<dots> = c" using assms by (rule mod_pos_pos_trivial)
  finally show "(r * n + c) mod n = c" .
  have n: "n \<noteq> 0" using assms by auto
  have "(r * n + c) div n = r + c div n" using n by simp
  also have "c div n = 0" using assms by (rule div_pos_pos_trivial)
  finally show "(r * n + c) div n = r" by simp
qed

lemma index_unique:
  fixes r c r' c' n :: int
  assumes "0 \<le> c" "c < n" "0 \<le> c'" "c' < n" "r * n + c = r' * n + c'"
  shows "r = r' \<and> c = c'"
proof -
  have "c = (r * n + c) mod n" using assms(1,2) by (simp only: index_mod)
  also have "\<dots> = (r' * n + c') mod n" by (simp only: assms(5))
  also have "\<dots> = c'" using assms(3,4) by (simp only: index_mod)
  finally have c: "c = c'" .
  have "r = (r * n + c) div n" using assms(1,2) by (simp only: index_mod)
  also have "\<dots> = (r' * n + c') div n" by (simp only: assms(5))
  also have "\<dots> = r'" using assms(3,4) by (simp only: index_mod)
  finally have "r = r'" .
  with c show ?thesis by simp
qed

lemma edge_from_cell:
  assumes r1: "0 \<le> r1" "r1 < rows" and c1: "0 \<le> c1" "c1 < cols"
    and r2: "0 \<le> r2" "r2 < rows" and c2: "0 \<le> c2" "c2 < cols"
  shows "(r1 * cols + c1, r2 * cols + c2) \<in> set (edges (grid rows cols)) \<longleftrightarrow>
         (r2 = r1 \<and> c2 = c1 + 1) \<or> (c2 = c1 \<and> r2 = r1 + 1)"
proof
  assume "(r1 * cols + c1, r2 * cols + c2) \<in> set (edges (grid rows cols))"
  then obtain r c where rc: "0 \<le> r" "r < rows" "0 \<le> c" "c < cols"
      and a: "r1 * cols + c1 = r * cols + c"
      and b: "(c + 1 < cols \<and> r2 * cols + c2 = r1 * cols + c1 + 1) \<or>
              (r + 1 < rows \<and> r2 * cols + c2 = r1 * cols + c1 + cols)"
    unfolding edges_grid_iff by blast
  from index_unique [OF c1 rc(3,4) a] have eq: "r = r1" "c = c1" by simp_all
  from b show "(r2 = r1 \<and> c2 = c1 + 1) \<or> (c2 = c1 \<and> r2 = r1 + 1)"
  proof
    assume h: "c + 1 < cols \<and> r2 * cols + c2 = r1 * cols + c1 + 1"
    then have "0 \<le> c1 + 1" "c1 + 1 < cols" "r2 * cols + c2 = r1 * cols + (c1 + 1)"
      using c1 eq by simp_all
    from index_unique [OF c2 this] show ?thesis by simp
  next
    assume h: "r + 1 < rows \<and> r2 * cols + c2 = r1 * cols + c1 + cols"
    then have "r2 * cols + c2 = (r1 + 1) * cols + c1"
      by (simp add: algebra_simps)
    from index_unique [OF c2 c1 this] show ?thesis by simp
  qed
next
  assume "(r2 = r1 \<and> c2 = c1 + 1) \<or> (c2 = c1 \<and> r2 = r1 + 1)"
  then show "(r1 * cols + c1, r2 * cols + c2) \<in> set (edges (grid rows cols))"
    unfolding edges_grid_iff using r1 c1 r2 c2
    by (intro exI [of _ r1] exI [of _ c1]) (auto simp: algebra_simps)
qed

lemma is_connected_iff: "is_connected t a b \<longleftrightarrow> (a, b) \<in> set (edges t) \<or> (b, a) \<in> set (edges t)"
  unfolding is_connected_def list_ex_iff by auto


text \<open>
  C6. The edges of \<open>grid(rows, cols)\<close> are exactly the pairs that lead from a node \<open>(r, c)\<close>,
  of index \<open>r * cols + c\<close>, to its right neighbour (when \<open>c + 1 < cols\<close>) or to its down
  neighbour (when \<open>r + 1 < rows\<close>). So two nodes of the grid are connected exactly when they
  are next to each other in one row or in one column: no wraparound, no diagonal. In
  \<open>grid(2, 2)\<close>, 0 is connected to 1 and to 2 and not to 3.
\<close>

theorem grid_right_and_down_only:
  "((a, b) \<in> set (edges (grid rows cols)) \<longleftrightarrow>
      (\<exists>r c. 0 \<le> r \<and> r < rows \<and> 0 \<le> c \<and> c < cols \<and> a = r * cols + c \<and>
         ((c + 1 < cols \<and> b = a + 1) \<or> (r + 1 < rows \<and> b = a + cols)))) \<and>
   (0 \<le> r1 \<and> r1 < rows \<and> 0 \<le> c1 \<and> c1 < cols \<and>
    0 \<le> r2 \<and> r2 < rows \<and> 0 \<le> c2 \<and> c2 < cols \<longrightarrow>
      is_connected (grid rows cols) (r1 * cols + c1) (r2 * cols + c2) =
        ((r2 = r1 \<and> (c2 = c1 + 1 \<or> c1 = c2 + 1)) \<or>
         (c2 = c1 \<and> (r2 = r1 + 1 \<or> r1 = r2 + 1)))) \<and>
   is_connected (grid 2 2) 0 1 \<and>
   is_connected (grid 2 2) 0 2 \<and>
   \<not> is_connected (grid 2 2) 0 3"
proof (intro conjI impI)
  show "(a, b) \<in> set (edges (grid rows cols)) \<longleftrightarrow>
      (\<exists>r c. 0 \<le> r \<and> r < rows \<and> 0 \<le> c \<and> c < cols \<and> a = r * cols + c \<and>
         ((c + 1 < cols \<and> b = a + 1) \<or> (r + 1 < rows \<and> b = a + cols)))"
    by (rule edges_grid_iff)
next
  assume h: "0 \<le> r1 \<and> r1 < rows \<and> 0 \<le> c1 \<and> c1 < cols \<and>
    0 \<le> r2 \<and> r2 < rows \<and> 0 \<le> c2 \<and> c2 < cols"
  then have fwd: "(r1 * cols + c1, r2 * cols + c2) \<in> set (edges (grid rows cols)) \<longleftrightarrow>
         (r2 = r1 \<and> c2 = c1 + 1) \<or> (c2 = c1 \<and> r2 = r1 + 1)"
    by (intro edge_from_cell) simp_all
  from h have bwd: "(r2 * cols + c2, r1 * cols + c1) \<in> set (edges (grid rows cols)) \<longleftrightarrow>
         (r1 = r2 \<and> c1 = c2 + 1) \<or> (c1 = c2 \<and> r1 = r2 + 1)"
    by (intro edge_from_cell) simp_all
  show "is_connected (grid rows cols) (r1 * cols + c1) (r2 * cols + c2) =
        ((r2 = r1 \<and> (c2 = c1 + 1 \<or> c1 = c2 + 1)) \<or>
         (c2 = c1 \<and> (r2 = r1 + 1 \<or> r1 = r2 + 1)))"
    unfolding is_connected_iff fwd bwd by auto
next
  have e: "edges (grid 2 2) = [(0, 1), (0, 2), (1, 3), (2, 3)]"
    by code_simp
  show "is_connected (grid 2 2) 0 1" "is_connected (grid 2 2) 0 2"
    "\<not> is_connected (grid 2 2) 0 3"
    by (simp_all add: is_connected_def e)
qed

theorem grid_right_and_down_only_witness:
  "(0::int) \<le> 1 \<and> (1::int) < 2 \<and> (0::int) \<le> 0 \<and> (0::int) < 3 \<and> (2::int) < 3 \<and>
   is_connected (grid 2 3) (1 * 3 + 1) (1 * 3 + 2) \<and>
   is_connected (grid 2 3) (0 * 3 + 1) (1 * 3 + 1) \<and>
   \<not> is_connected (grid 2 3) (0 * 3 + 2) (1 * 3 + 0) \<and>
   \<not> is_connected (grid 2 3) (0 * 3 + 0) (1 * 3 + 1)"
  using grid_right_and_down_only [of _ _ 2 3 1 1 1 2]
    grid_right_and_down_only [of _ _ 2 3 0 1 1 1]
    grid_right_and_down_only [of _ _ 2 3 0 2 1 0]
    grid_right_and_down_only [of _ _ 2 3 0 0 1 1]
  by simp

subsection \<open>The default wait\<close>

lemma recording_sleep_apply:
  "recording_sleep sl t (w, cs) = (sl t w, cs @ [Sleep_call t])"
  by (simp add: recording_sleep_def)

lemma wait_loop_recording:
  "wait_loop n (recording_sleep sl) (recording b) job_id (w, cs0) = (out, (w', cs')) \<Longrightarrow>
   \<exists>cs. cs' = cs0 @ cs \<and> wait_run n job_id cs out \<and> wait_loop n sl b job_id w = (out, w')"
proof (induction n arbitrary: w cs0)
  case 0
  then show ?case using wait_run.timeout [of job_id] by auto
next
  case (Suc n)
  obtain x w1 where st: "status b job_id w = (x, w1)" by (cases "status b job_id w")
  have rst: "status (recording b) job_id (w, cs0) = (x, (w1, cs0 @ [Status_call x]))"
    by (simp add: recording_def st)
  show ?case
  proof (cases x)
    case (Inl e)
    with Suc.prems rst st wait_run.status_raised [of n job_id e] show ?thesis
      by auto
  next
    case (Inr s)
    show ?thesis
    proof (cases s)
      case COMPLETED
      obtain y w2 where res: "result b job_id w1 = (y, w2)" by (cases "result b job_id w1")
      have rres: "result (recording b) job_id (w1, cs0 @ [Status_call (Inr COMPLETED)]) =
          (y, (w2, cs0 @ [Status_call (Inr COMPLETED), Result_call y]))"
        by (simp add: recording_def res)
      from Suc.prems have "out = outcome_of_result y" "w' = w2"
        "cs' = cs0 @ [Status_call (Inr COMPLETED), Result_call y]"
        by (cases y; simp add: rst rres Inr COMPLETED)+
      moreover have "wait_loop (Suc n) sl b job_id w = (outcome_of_result y, w2)"
        by (cases y) (simp_all add: st res Inr COMPLETED)
      ultimately show ?thesis
        using wait_run.completed [of n job_id y] by auto
    next
      case FAILED
      with Suc.prems rst st Inr wait_run.failed [of n job_id] show ?thesis
        by auto
    next
      case CANCELLED
      with Suc.prems rst st Inr wait_run.cancelled [of n job_id] show ?thesis
        by auto
    next
      case QUEUED
      from Suc.prems have "wait_loop n (recording_sleep sl) (recording b) job_id
          (sl (1 / 2) w1, cs0 @ [Status_call (Inr QUEUED), Sleep_call (1 / 2)]) = (out, (w', cs'))"
        by (simp add: rst Inr QUEUED recording_sleep_apply)
      from Suc.IH [OF this] obtain cs where
        "cs' = (cs0 @ [Status_call (Inr QUEUED), Sleep_call (1 / 2)]) @ cs"
        "wait_run n job_id cs out" "wait_loop n sl b job_id (sl (1 / 2) w1) = (out, w')"
        by blast
      then show ?thesis
        by (auto simp: st Inr QUEUED intro: wait_run.pending)
    next
      case RUNNING
      from Suc.prems have "wait_loop n (recording_sleep sl) (recording b) job_id
          (sl (1 / 2) w1, cs0 @ [Status_call (Inr RUNNING), Sleep_call (1 / 2)]) = (out, (w', cs'))"
        by (simp add: rst Inr RUNNING recording_sleep_apply)
      from Suc.IH [OF this] obtain cs where
        "cs' = (cs0 @ [Status_call (Inr RUNNING), Sleep_call (1 / 2)]) @ cs"
        "wait_run n job_id cs out" "wait_loop n sl b job_id (sl (1 / 2) w1) = (out, w')"
        by blast
      then show ?thesis
        by (auto simp: st Inr RUNNING intro: wait_run.pending)
    qed
  qed
qed

lemma first_index_Cons:
  assumes "\<not> P x" and "Q x"
  shows "(\<exists>k<length (x # xs). P ((x # xs) ! k) \<and> (\<forall>i<k. Q ((x # xs) ! i))) \<longleftrightarrow>
         (\<exists>k<length xs. P (xs ! k) \<and> (\<forall>i<k. Q (xs ! i)))"
proof
  assume "\<exists>k<length (x # xs). P ((x # xs) ! k) \<and> (\<forall>i<k. Q ((x # xs) ! i))"
  then obtain k where k: "k < length (x # xs)" "P ((x # xs) ! k)" "\<forall>i<k. Q ((x # xs) ! i)"
    by blast
  with assms(1) obtain k' where k': "k = Suc k'" by (cases k) auto
  from k(3) have "\<forall>i<k'. Q (xs ! i)"
    unfolding k' by (metis Suc_less_eq nth_Cons_Suc)
  with k(1,2) show "\<exists>k<length xs. P (xs ! k) \<and> (\<forall>i<k. Q (xs ! i))"
    unfolding k' by auto
next
  assume "\<exists>k<length xs. P (xs ! k) \<and> (\<forall>i<k. Q (xs ! i))"
  then obtain k where k: "k < length xs" "P (xs ! k)" "\<forall>i<k. Q (xs ! i)"
    by blast
  have "\<forall>i<Suc k. Q ((x # xs) ! i)"
    using assms(2) k(3) by (auto simp: nth_Cons')
  with k(1,2) show "\<exists>k<length (x # xs). P ((x # xs) ! k) \<and> (\<forall>i<k. Q ((x # xs) ! i))"
    by (intro exI [of _ "Suc k"]) simp
qed




lemma outcome_of_result_not_Raised: "outcome_of_result x \<noteq> Raised e"
  by (cases x) simp_all

lemma wait_run_failed_iff:
  "wait_run n job_id cs out \<Longrightarrow>
   (\<exists>m. out = Raised (JobFailedError m)) \<longleftrightarrow>
   (\<exists>k<length (polls cs). polls cs ! k = Inr FAILED \<and>
      (\<forall>i<k. \<forall>s. polls cs ! i = Inr s \<longrightarrow> \<not> is_terminal s))"
proof (induction rule: wait_run.induct)
  case (pending s n job_id cs out)
  have "(\<exists>k<length (Inr s # polls cs). (Inr s # polls cs) ! k = Inr FAILED \<and>
      (\<forall>i<k. \<forall>t. (Inr s # polls cs) ! i = Inr t \<longrightarrow> \<not> is_terminal t)) \<longleftrightarrow>
    (\<exists>k<length (polls cs). polls cs ! k = Inr FAILED \<and>
      (\<forall>i<k. \<forall>t. polls cs ! i = Inr t \<longrightarrow> \<not> is_terminal t))"
    using pending.hyps(1)
    by (intro first_index_Cons [where P = "\<lambda>x. x = Inr FAILED"
          and Q = "\<lambda>x. \<forall>t. x = Inr t \<longrightarrow> \<not> is_terminal t"])
      (auto simp: is_terminal_def)
  with pending.IH show ?case by simp
qed (auto simp: outcome_of_result_not_Raised)










lemma wait_run_propagated_iff:
  "wait_run n job_id cs out \<Longrightarrow>
   out = Propagated e \<longleftrightarrow>
     cs \<noteq> [] \<and> (last cs = Status_call (Inl e) \<or> last cs = Result_call (Inl e))"
proof (induction rule: wait_run.induct)
  case (completed n job_id x)
  show ?case by (cases x) auto
next
  case (pending s n job_id cs out)
  then show ?case by (cases "cs = []") auto
qed auto

lemma polls_pending_rounds:
  "polls (concat (replicate n [Status_call x, Sleep_call t])) = replicate n x"
  by (induction n) simp_all











text \<open>
  What the caller sees, for a backend that raises the exceptions of this module: \<^verbatim>\<open>wait\<close>
  fails with a \<^verbatim>\<open>JobFailedError\<close> exactly when the first terminal status observed is
  FAILED (the message is then the one \<^verbatim>\<open>wait\<close> builds) or when its last call, of
  \<^verbatim>\<open>status\<close> or of \<^verbatim>\<open>result\<close>, raised that \<^verbatim>\<open>JobFailedError\<close>.
\<close>

lemma wait_run_failed_message:
  "wait_run n job_id cs out \<Longrightarrow> out = Raised (JobFailedError m) \<Longrightarrow>
   m = ''Job '' @ job_id @ '' failed''"
  by (induction rule: wait_run.induct) (auto simp: outcome_of_result_not_Raised)

lemma exception_raised_iff:
  "exception_raised out = Some e \<longleftrightarrow> out = Raised e \<or> out = Propagated e"
  by (cases out) auto

corollary wait_caller_sees_JobFailed:
  fixes b :: "('w, HalError, 'r) Backend"
  assumes run: "wait (recording_sleep sl) (recording b) job_id (w, []) = (out, (w', cs))"
  shows "exception_raised out = Some (JobFailedError m) \<longleftrightarrow>
    (m = ''Job '' @ job_id @ '' failed'' \<and>
     (\<exists>k<length (polls cs). polls cs ! k = Inr FAILED \<and>
        (\<forall>i<k. \<forall>s. polls cs ! i = Inr s \<longrightarrow> \<not> is_terminal s))) \<or>
    (cs \<noteq> [] \<and> (last cs = Status_call (Inl (JobFailedError m)) \<or>
                 last cs = Result_call (Inl (JobFailedError m))))"
proof -
  from run have "wait_loop 600 (recording_sleep sl) (recording b) job_id (w, []) = (out, (w', cs))"
    by (simp add: wait_def)
  from wait_loop_recording [OF this] have wr: "wait_run 600 job_id cs out"
    by simp
  have raised: "out = Raised (JobFailedError m) \<longleftrightarrow>
      m = ''Job '' @ job_id @ '' failed'' \<and>
      (\<exists>k<length (polls cs). polls cs ! k = Inr FAILED \<and>
        (\<forall>i<k. \<forall>s. polls cs ! i = Inr s \<longrightarrow> \<not> is_terminal s))"
  proof
    assume h: "out = Raised (JobFailedError m)"
    then have "\<exists>m. out = Raised (JobFailedError m)" by blast
    with wait_run_failed_iff [OF wr] wait_run_failed_message [OF wr h]
    show "m = ''Job '' @ job_id @ '' failed'' \<and>
      (\<exists>k<length (polls cs). polls cs ! k = Inr FAILED \<and>
        (\<forall>i<k. \<forall>s. polls cs ! i = Inr s \<longrightarrow> \<not> is_terminal s))"
      by blast
  next
    assume h: "m = ''Job '' @ job_id @ '' failed'' \<and>
      (\<exists>k<length (polls cs). polls cs ! k = Inr FAILED \<and>
        (\<forall>i<k. \<forall>s. polls cs ! i = Inr s \<longrightarrow> \<not> is_terminal s))"
    with wait_run_failed_iff [OF wr] obtain m' where m': "out = Raised (JobFailedError m')"
      by blast
    from wait_run_failed_message [OF wr m'] h m' show "out = Raised (JobFailedError m)"
      by simp
  qed
  show ?thesis
    unfolding exception_raised_iff raised wait_run_propagated_iff [OF wr] by blast
qed

subsection \<open>The calls of result\<close>



subsection \<open>ValidationResult constructors\<close>

text \<open>
  C9. For every string \<open>x\<close>, \<open>needs_transpilation x\<close> has \<open>is_valid\<close> false,
  \<open>requires_transpilation\<close> true and \<open>transpilation_details\<close> equal to \<open>x\<close>.
\<close>

theorem needs_transpilation_fields:
  "is_valid (needs_transpilation x) = False \<and>
   requires_transpilation (needs_transpilation x) = True \<and>
   transpilation_details (needs_transpilation x) = Some x"
  by (simp add: needs_transpilation_def)

end
